theory Spec2Isabelle
  imports Complex_Main "HOL-Library.AList"
begin

section \<open>Python values, errors and the library functions the source calls\<close>

text \<open>
  The arguments of the engine are arbitrary Python objects: the source itself tests
  \<^verbatim>\<open>isinstance(x, int) and x > 0\<close>. \<open>PInt\<close> is an \<^verbatim>\<open>int\<close> (unbounded), \<open>PBool\<close> a
  \<^verbatim>\<open>bool\<close> (a subclass of \<^verbatim>\<open>int\<close> in Python, with the values 1 and 0), \<open>PStr\<close> a
  \<^verbatim>\<open>str\<close>, \<open>PDict\<close> a \<^verbatim>\<open>dict\<close> with string keys in insertion order, and \<open>POther\<close> any object
  that is not an instance of \<^verbatim>\<open>int\<close> (a float, \<^verbatim>\<open>None\<close>, a list, ...), left abstract.
\<close>

datatype 'o pyval =
    PInt int
  | PBool bool
  | PStr string
  | PDict "(string \<times> 'o pyval) list"
  | POther 'o

type_synonym 'o steps = "(string \<times> 'o pyval) list"

datatype error = ValueError string | ZeroDivisionError | KeyError

text \<open>The messages of the \<^verbatim>\<open>ValueError\<close>s the source raises; the first two under the names the specification gives them.\<close>

definition InvalidInput :: error where
  "InvalidInput = ValueError ''All inputs must be positive integers.''"

definition NonIntegerResult :: error where
  "NonIntegerResult =
     ValueError ''The balancing does not result in an integer C4_prime. Adjust a, b or inputs.''"

definition NonIntegerAnalogy :: error where
  "NonIntegerAnalogy =
     ValueError ''The analogy does not result in an integer output. Check attribute mappings.''"

definition and_then :: "error + 'a \<Rightarrow> ('a \<Rightarrow> error + 'b) \<Rightarrow> error + 'b" where
  "and_then m f = (case m of Inl e \<Rightarrow> Inl e | Inr x \<Rightarrow> f x)"

fun isinstance_int :: "'o pyval \<Rightarrow> bool" where
  "isinstance_int (PInt n) = True"
| "isinstance_int (PBool b) = True"
| "isinstance_int (PStr s) = False"
| "isinstance_int (PDict d) = False"
| "isinstance_int (POther x) = False"

text \<open>
  The integer an instance of \<^verbatim>\<open>int\<close> stands for in arithmetic. The engine reads it only
  behind its \<^verbatim>\<open>isinstance\<close> test; the value 0 at the other objects is never used.
\<close>

fun int_val :: "'o pyval \<Rightarrow> int" where
  "int_val (PInt n) = n"
| "int_val (PBool b) = (if b then 1 else 0)"
| "int_val (PStr s) = 0"
| "int_val (PDict d) = 0"
| "int_val (POther x) = 0"

text \<open>\<^verbatim>\<open>isinstance(x, int) and x > 0\<close>\<close>

definition positive_int :: "'o pyval \<Rightarrow> bool" where
  "positive_int x = (isinstance_int x \<and> 0 < int_val x)"

text \<open>\<^verbatim>\<open>math.gcd(*integers)\<close>: non-negative, 0 without arguments.\<close>

definition math_gcd :: "int list \<Rightarrow> int" where
  "math_gcd xs = foldr gcd xs 0"

text \<open>\<^verbatim>\<open>x // y\<close> on integers: floor division, \<^verbatim>\<open>ZeroDivisionError\<close> at \<open>y = 0\<close>.\<close>

definition floordiv :: "int \<Rightarrow> int \<Rightarrow> error + int" where
  "floordiv x y = (if y = 0 then Inl ZeroDivisionError else Inr (x div y))"

text \<open>
  \<^verbatim>\<open>fractions.Fraction\<close> is an exact rational kept in lowest terms with a positive
  denominator: a value of type \<^typ>\<open>rat\<close>, whose numerator and denominator are those of
  \<^const>\<open>quotient_of\<close>. The constructor raises on a zero denominator.
\<close>

definition Fraction :: "int \<Rightarrow> int \<Rightarrow> error + rat" where
  "Fraction n d = (if d = 0 then Inl ZeroDivisionError else Inr (Fract n d))"

definition Fraction_numerator :: "rat \<Rightarrow> int" where
  "Fraction_numerator r = fst (quotient_of r)"

definition Fraction_denominator :: "rat \<Rightarrow> int" where
  "Fraction_denominator r = snd (quotient_of r)"

text \<open>\<^verbatim>\<open>int(Fraction)\<close> truncates towards zero.\<close>

definition int_Fraction :: "rat \<Rightarrow> int" where
  "int_Fraction r =
     (if Fraction_numerator r < 0
      then - ((- Fraction_numerator r) div Fraction_denominator r)
      else Fraction_numerator r div Fraction_denominator r)"

text \<open>
  \<^verbatim>\<open>str\<close> of an integer: its decimal digits. CPython refuses the conversion of an integer
  with more digits than \<^verbatim>\<open>sys.get_int_max_str_digits()\<close>, 4300 by default, with a
  \<^verbatim>\<open>ValueError\<close>; the sign does not count.
\<close>

definition int_max_str_digits :: nat where
  "int_max_str_digits = 4300"

definition StrDigitsExceeded :: error where
  "StrDigitsExceeded = ValueError
     (''Exceeds the limit (4300 digits) for integer string conversion; '' @
      ''use sys.set_int_max_str_digits() to increase the limit'')"

definition digit_char :: "nat \<Rightarrow> char" where
  "digit_char d = char_of (48 + d)"

fun str_nat :: "nat \<Rightarrow> string" where
  "str_nat n = (if n < 10 then [digit_char n] else str_nat (n div 10) @ [digit_char (n mod 10)])"

declare str_nat.simps [simp del]

definition str_int :: "int \<Rightarrow> error + string" where
  "str_int i =
     (let digits = str_nat (nat \<bar>i\<bar>)
      in if int_max_str_digits < length digits then Inl StrDigitsExceeded
         else Inr (if i < 0 then CHR ''-'' # digits else digits))"

text \<open>
  \<^verbatim>\<open>str\<close> of a \<^verbatim>\<open>Fraction\<close>: the numerator alone when the denominator is 1, otherwise
  \<^verbatim>\<open>'%s/%s' % (numerator, denominator)\<close>; each part is converted as an integer is.
\<close>

definition str_Fraction :: "rat \<Rightarrow> error + string" where
  "str_Fraction r =
     (if Fraction_denominator r = 1 then str_int (Fraction_numerator r)
      else and_then (str_int (Fraction_numerator r)) (\<lambda>n.
           and_then (str_int (Fraction_denominator r)) (\<lambda>d.
           Inr (n @ ''/'' @ d))))"

text \<open>
  An integer is within the limit when it has at most 4300 decimal digits, that is, when
  its absolute value is below \<open>10 ^ 4300\<close>; a \<^verbatim>\<open>Fraction\<close> can be printed when its numerator
  and its denominator are within the limit.
\<close>

definition str_digits_ok :: "int \<Rightarrow> bool" where
  "str_digits_ok i = (length (str_nat (nat \<bar>i\<bar>)) \<le> int_max_str_digits)"

definition Fraction_str_ok :: "rat \<Rightarrow> bool" where
  "Fraction_str_ok r = (str_digits_ok (Fraction_numerator r) \<and> str_digits_ok (Fraction_denominator r))"

section \<open>The triad engine\<close>

definition compute_triad ::
  "'o pyval \<Rightarrow> 'o pyval \<Rightarrow> 'o pyval \<Rightarrow> 'o pyval \<Rightarrow> 'o pyval \<Rightarrow> error + (int \<times> rat \<times> 'o steps)" where
  "compute_triad C1 C2 C3 a b =
    (if \<not> list_all positive_int [C1, C2, C3, a, b]
     then Inl (ValueError ''All inputs must be positive integers.'')
     else
      let steps = [];
          steps = AList.update ''inputs''
                    (PDict [(''C1'', C1), (''C2'', C2), (''C3'', C3), (''a'', a), (''b'', b)]) steps;
          gcd_in = math_gcd [int_val C1, int_val C2, int_val C3]
      in and_then (floordiv (int_val C1) gcd_in) (\<lambda>C1_prime.
         and_then (floordiv (int_val C2) gcd_in) (\<lambda>C2_prime.
         and_then (floordiv (int_val C3) gcd_in) (\<lambda>C3_prime.
         let steps = AList.update ''normalization''
                       (PDict [(''gcd_in'', PInt gcd_in), (''C1_prime'', PInt C1_prime),
                               (''C2_prime'', PInt C2_prime), (''C3_prime'', PInt C3_prime)]) steps;
             numerator = int_val a * C2_prime * C3_prime;
             denominator = int_val b * C1_prime
         in and_then (Fraction numerator denominator) (\<lambda>C4_prime.
            and_then (str_Fraction C4_prime) (\<lambda>C4_prime_str.
         let steps = AList.update ''transformation''
                       (PDict [(''C4_prime'', PStr C4_prime_str)]) steps;
             C4 = C4_prime * of_int gcd_in
         in if Fraction_denominator C4 \<noteq> 1
            then Inl (ValueError
              ''The balancing does not result in an integer C4_prime. Adjust a, b or inputs.'')
            else
              let C4 = int_Fraction C4;
                  steps = AList.update ''denormalization'' (PDict [(''C4'', PInt C4)]) steps
              in and_then (Fraction 1 (int_val a * int_val b)) (\<lambda>K.
                 and_then (str_Fraction K) (\<lambda>K_str.
                 let steps = AList.update ''K'' (PStr K_str) steps
                 in Inr (C4, K, steps)))))))))"

definition analogy_variant ::
  "'o pyval \<Rightarrow> 'o pyval \<Rightarrow> 'o pyval \<Rightarrow> error + (int \<times> rat \<times> 'o steps)" where
  "analogy_variant C1 C2 C3 =
    (if \<not> list_all positive_int [C1, C2, C3]
     then Inl (ValueError ''All inputs must be positive integers.'')
     else
      let steps = [];
          gcd_in = math_gcd [int_val C1, int_val C2, int_val C3]
      in and_then (floordiv (int_val C1) gcd_in) (\<lambda>C1_prime.
         and_then (floordiv (int_val C2) gcd_in) (\<lambda>C2_prime.
         and_then (floordiv (int_val C3) gcd_in) (\<lambda>C3_prime.
         let steps = AList.update ''normalization''
                       (PDict [(''gcd_in'', PInt gcd_in), (''C1_prime'', PInt C1_prime),
                               (''C2_prime'', PInt C2_prime), (''C3_prime'', PInt C3_prime)]) steps;
             numerator = C1_prime * C3_prime
         in and_then (Fraction numerator C2_prime) (\<lambda>C4_prime.
            and_then (str_Fraction C4_prime) (\<lambda>C4_prime_str.
         let steps = AList.update ''transformation''
                       (PDict [(''C4_prime'', PStr C4_prime_str)]) steps;
             C4 = C4_prime * of_int gcd_in
         in if Fraction_denominator C4 \<noteq> 1
            then Inl (ValueError
              ''The analogy does not result in an integer output. Check attribute mappings.'')
            else
              let C4 = int_Fraction C4;
                  steps = AList.update ''denormalization'' (PDict [(''C4'', PInt C4)]) steps
              in and_then (Fraction 1 1) (\<lambda>K.
                 and_then (str_Fraction K) (\<lambda>K_str.
                 let steps = AList.update ''K'' (PStr K_str) steps
                 in Inr (C4, K, steps)))))))))"

definition check_static_balance ::
  "'o pyval \<Rightarrow> 'o pyval \<Rightarrow> 'o pyval \<Rightarrow> 'o pyval \<Rightarrow> error + (int \<times> int \<times> rat \<times> 'o steps)" where
  "check_static_balance C1 C2 C3 C4 =
    (if \<not> list_all positive_int [C1, C2, C3, C4]
     then Inl (ValueError ''All inputs must be positive integers.'')
     else
      let steps = [(''inputs'', PDict [(''C1'', C1), (''C2'', C2), (''C3'', C3), (''C4'', C4)])];
          gcd_in = math_gcd [int_val C1, int_val C2, int_val C3, int_val C4]
      in and_then (floordiv (int_val C1) gcd_in) (\<lambda>C1_prime.
         and_then (floordiv (int_val C2) gcd_in) (\<lambda>C2_prime.
         and_then (floordiv (int_val C3) gcd_in) (\<lambda>C3_prime.
         and_then (floordiv (int_val C4) gcd_in) (\<lambda>C4_prime.
         let steps = AList.update ''normalization''
                       (PDict [(''gcd_in'', PInt gcd_in), (''C1_prime'', PInt C1_prime),
                               (''C2_prime'', PInt C2_prime), (''C3_prime'', PInt C3_prime),
                               (''C4_prime'', PInt C4_prime)]) steps
         in and_then (Fraction (C1_prime * C4_prime) (C2_prime * C3_prime)) (\<lambda>ratio.
         let a = Fraction_numerator ratio;
             b = Fraction_denominator ratio;
             gcd_ab = math_gcd [a, b]
         in and_then (floordiv a gcd_ab) (\<lambda>a.
            and_then (floordiv b gcd_ab) (\<lambda>b.
            let steps = AList.update ''balancing'' (PDict [(''a'', PInt a), (''b'', PInt b)]) steps
            in and_then (Fraction 1 (a * b)) (\<lambda>K.
               and_then (str_Fraction K) (\<lambda>K_str.
               let steps = AList.update ''K'' (PStr K_str) steps
               in Inr (a, b, K, steps)))))))))))"

text \<open>
  The loop of \<^verbatim>\<open>chain_triads\<close>, with its three local variables as arguments; a step that
  raises ends the loop with that error.
\<close>

fun chain_loop ::
  "'o pyval \<Rightarrow> rat list \<Rightarrow> 'o steps list \<Rightarrow> ('o pyval \<times> 'o pyval \<times> 'o pyval \<times> 'o pyval) list
     \<Rightarrow> error + ('o pyval \<times> rat list \<times> 'o steps list)" where
  "chain_loop current_C1 all_K all_steps [] = Inr (current_C1, all_K, all_steps)"
| "chain_loop current_C1 all_K all_steps ((C2, C3, a, b) # triad_list) =
     and_then (compute_triad current_C1 C2 C3 a b) (\<lambda>(C4, K, steps).
       chain_loop (PInt C4) (all_K @ [K]) (all_steps @ [steps]) triad_list)"

definition chain_triads ::
  "'o pyval \<Rightarrow> ('o pyval \<times> 'o pyval \<times> 'o pyval \<times> 'o pyval) list
     \<Rightarrow> error + ('o pyval \<times> rat list \<times> 'o steps list)" where
  "chain_triads initial_C1 triad_list = chain_loop initial_C1 [] [] triad_list"

section \<open>The triad graph\<close>

text \<open>
  The part of \<^verbatim>\<open>networkx.DiGraph\<close> the source uses: a dictionary from node to its
  attribute dictionary and one from (source, target) to the edge's attribute dictionary.
  \<^verbatim>\<open>add_node\<close> creates the node or updates its attributes; \<^verbatim>\<open>add_edge\<close> creates missing
  endpoints without attributes and creates the edge or updates its attributes.
\<close>

record 'id DiGraph =
  nodes :: "'id \<rightharpoonup> (string \<rightharpoonup> rat)"
  edges :: "('id \<times> 'id) \<rightharpoonup> (string \<rightharpoonup> rat)"

definition DiGraph_empty :: "'id DiGraph" where
  "DiGraph_empty = \<lparr>nodes = Map.empty, edges = Map.empty\<rparr>"

definition add_node :: "'id \<Rightarrow> (string \<rightharpoonup> rat) \<Rightarrow> 'id DiGraph \<Rightarrow> 'id DiGraph" where
  "add_node n attr G =
     G\<lparr>nodes := (nodes G)(n \<mapsto> (case nodes G n of None \<Rightarrow> attr | Some old \<Rightarrow> old ++ attr))\<rparr>"

definition add_edge :: "'id \<Rightarrow> 'id \<Rightarrow> (string \<rightharpoonup> rat) \<Rightarrow> 'id DiGraph \<Rightarrow> 'id DiGraph" where
  "add_edge u v attr G =
     (let G = (if nodes G u = None then G\<lparr>nodes := (nodes G)(u \<mapsto> Map.empty)\<rparr> else G);
          G = (if nodes G v = None then G\<lparr>nodes := (nodes G)(v \<mapsto> Map.empty)\<rparr> else G)
      in G\<lparr>edges := (edges G)((u, v) \<mapsto>
              (case edges G (u, v) of None \<Rightarrow> attr | Some old \<Rightarrow> old ++ attr))\<rparr>)"

record 'id TriadicNetwork =
  graph :: "'id DiGraph"

definition TriadicNetwork_init :: "'id TriadicNetwork" where
  "TriadicNetwork_init = \<lparr>graph = DiGraph_empty\<rparr>"

definition add_triad ::
  "'id TriadicNetwork \<Rightarrow> 'id \<Rightarrow> 'o pyval \<Rightarrow> 'o pyval \<Rightarrow> 'o pyval \<Rightarrow> 'o pyval \<Rightarrow> 'o pyval
     \<Rightarrow> error + 'id TriadicNetwork" where
  "add_triad self triad_id C1 C2 C3 a b =
     and_then (compute_triad C1 C2 C3 a b) (\<lambda>(C4, K, steps).
       Inr (self\<lparr>graph := add_node triad_id [''K'' \<mapsto> K] (graph self)\<rparr>))"

text \<open>
  \<^verbatim>\<open>self.graph.nodes[from_id]['K']\<close> raises \<^verbatim>\<open>KeyError\<close> on a missing node and on a
  node without the attribute \<^verbatim>\<open>K\<close>.
\<close>

definition add_connection ::
  "'id TriadicNetwork \<Rightarrow> 'id \<Rightarrow> 'id \<Rightarrow> error + 'id TriadicNetwork" where
  "add_connection self from_id to_id =
     (if from_id \<in> dom (nodes (graph self)) \<and> to_id \<in> dom (nodes (graph self))
      then (case nodes (graph self) from_id of
              None \<Rightarrow> Inl KeyError
            | Some attrs \<Rightarrow>
               (case attrs ''K'' of
                  None \<Rightarrow> Inl KeyError
                | Some w \<Rightarrow>
                    Inr (self\<lparr>graph := add_edge from_id to_id [''weight'' \<mapsto> w] (graph self)\<rparr>)))
      else Inr self)"

text \<open>Reading a network: membership, the \<open>K\<close> stored on a node, the weight of an edge.\<close>

definition has_node :: "'id TriadicNetwork \<Rightarrow> 'id \<Rightarrow> bool" where
  "has_node self n = (nodes (graph self) n \<noteq> None)"

definition has_edge :: "'id TriadicNetwork \<Rightarrow> 'id \<Rightarrow> 'id \<Rightarrow> bool" where
  "has_edge self u v = (edges (graph self) (u, v) \<noteq> None)"

definition stored_K :: "'id TriadicNetwork \<Rightarrow> 'id \<Rightarrow> rat option" where
  "stored_K self n = (case nodes (graph self) n of None \<Rightarrow> None | Some attrs \<Rightarrow> attrs ''K'')"

definition edge_weight :: "'id TriadicNetwork \<Rightarrow> 'id \<Rightarrow> 'id \<Rightarrow> rat option" where
  "edge_weight self u v =
     (case edges (graph self) (u, v) of None \<Rightarrow> None | Some attrs \<Rightarrow> attrs ''weight'')"

text \<open>
  Every node carries the attribute \<open>K\<close>: true of the empty network and kept by
  \<open>add_triad\<close> and \<open>add_connection\<close>, the only operations of the class that change it.
\<close>

definition nodes_have_K :: "'id TriadicNetwork \<Rightarrow> bool" where
  "nodes_have_K self = (\<forall>n. has_node self n \<longrightarrow> stored_K self n \<noteq> None)"

text \<open>
  The network of the source's own example: the triads \<open>Delta1\<close> and \<open>Delta2\<close> registered in
  an empty network, before they are connected.
\<close>

definition network_example :: "string TriadicNetwork" where
  "network_example =
     \<lparr>graph = \<lparr>nodes = [''Delta1'' \<mapsto> [''K'' \<mapsto> 1 / 12], ''Delta2'' \<mapsto> [''K'' \<mapsto> 1]],
               edges = Map.empty\<rparr>\<rparr>"

section \<open>The formula without normalization\<close>


section \<open>Reading an outcome\<close>

text \<open>Projections of an outcome: the error or \<open>C4\<close>, the error or \<open>K\<close>, whether the trace has a stage.\<close>

definition C4_of :: "error + (int \<times> rat \<times> 'o steps) \<Rightarrow> error + int" where
  "C4_of r = (case r of Inl e \<Rightarrow> Inl e | Inr (C4, K, steps) \<Rightarrow> Inr C4)"

definition K_of :: "error + (int \<times> rat \<times> 'o steps) \<Rightarrow> error + rat" where
  "K_of r = (case r of Inl e \<Rightarrow> Inl e | Inr (C4, K, steps) \<Rightarrow> Inr K)"

definition has_stage :: "error + (int \<times> rat \<times> 'o steps) \<Rightarrow> string \<Rightarrow> bool" where
  "has_stage r name =
     (case r of Inl e \<Rightarrow> False | Inr (C4, K, steps) \<Rightarrow> map_of steps name \<noteq> None)"

section \<open>Facts about the library functions\<close>

lemma str_nat_not_Nil: "str_nat n \<noteq> []"
  by (subst str_nat.simps) simp

lemma length_str_nat: "0 < k \<Longrightarrow> (length (str_nat n) \<le> k) = (n < 10 ^ k)"
proof (induction n arbitrary: k rule: str_nat.induct)
  case (1 n)
  show ?case
  proof (cases "n < 10")
    case True
    have "(10::nat) ^ 1 \<le> 10 ^ k" using 1(2) by (intro power_increasing) simp_all
    with True 1(2) show ?thesis by (subst str_nat.simps) simp
  next
    case False
    show ?thesis
    proof (cases "k = 1")
      case True
      with False show ?thesis by (subst str_nat.simps) (simp add: str_nat_not_Nil)
    next
      case k: False
      with 1(2) have k1: "0 < k - 1" by simp
      have e: "(10::nat) ^ k = 10 ^ (k - 1) * 10" using 1(2) by (cases k) simp_all
      have "(length (str_nat (n div 10)) \<le> k - 1) = (n div 10 < 10 ^ (k - 1))"
        using 1(1) [OF False k1] .
      also have "\<dots> = (n < 10 ^ k)" unfolding e by (simp add: div_less_iff_less_mult)
      finally show ?thesis using False k1 by (subst str_nat.simps) auto
    qed
  qed
qed

lemma str_digits_ok_iff: "str_digits_ok i \<longleftrightarrow> \<bar>i\<bar> < 10 ^ int_max_str_digits"
proof -
  have "0 < int_max_str_digits" by (simp add: int_max_str_digits_def)
  then have "str_digits_ok i \<longleftrightarrow> nat \<bar>i\<bar> < 10 ^ int_max_str_digits"
    by (simp add: str_digits_ok_def length_str_nat)
  then show ?thesis by (simp add: nat_less_iff)
qed

lemma str_int_ok:
  "str_digits_ok i \<Longrightarrow>
     str_int i = Inr (if i < 0 then CHR ''-'' # str_nat (nat \<bar>i\<bar>) else str_nat (nat \<bar>i\<bar>))"
  by (simp add: str_int_def str_digits_ok_def Let_def)

lemma str_int_exceeded: "\<not> str_digits_ok i \<Longrightarrow> str_int i = Inl StrDigitsExceeded"
  by (simp add: str_int_def str_digits_ok_def Let_def)

lemma str_digits_ok_mono: "str_digits_ok j \<Longrightarrow> \<bar>i\<bar> \<le> \<bar>j\<bar> \<Longrightarrow> str_digits_ok i"
  by (simp add: str_digits_ok_iff)

lemma str_digits_ok_1 [simp]: "str_digits_ok 1"
  by code_simp



lemma str_Fraction_ok_iff: "(\<exists>s. str_Fraction r = Inr s) \<longleftrightarrow> Fraction_str_ok r"
  by (cases "str_digits_ok (Fraction_numerator r)"; cases "str_digits_ok (Fraction_denominator r)")
     (auto simp add: str_Fraction_def Fraction_str_ok_def and_then_def str_int_ok str_int_exceeded)

lemma str_Fraction_exceeded: "\<not> Fraction_str_ok r \<Longrightarrow> str_Fraction r = Inl StrDigitsExceeded"
  by (cases "str_digits_ok (Fraction_numerator r)"; cases "str_digits_ok (Fraction_denominator r)")
     (auto simp add: str_Fraction_def Fraction_str_ok_def and_then_def str_int_ok str_int_exceeded)

lemma str_Fraction_cases:
  "str_Fraction r = Inl StrDigitsExceeded \<and> \<not> Fraction_str_ok r \<or>
   (\<exists>s. str_Fraction r = Inr s) \<and> Fraction_str_ok r"
  using str_Fraction_ok_iff [of r] str_Fraction_exceeded [of r] by blast

lemma and_then_simps [simp]:
  "and_then (Inr x) f = f x"
  "and_then (Inl e) f = Inl e"
  by (simp_all add: and_then_def)

lemma Fraction_denominator_1_iff: "Fraction_denominator r = 1 \<longleftrightarrow> r \<in> \<int>"
proof
  assume h: "Fraction_denominator r = 1"
  have "r = Fract (fst (quotient_of r)) (snd (quotient_of r))" by simp
  also have "\<dots> = of_int (fst (quotient_of r))"
    using h by (simp add: Fraction_denominator_def Fract_of_int_eq)
  finally show "r \<in> \<int>" by (metis Ints_of_int)
next
  assume "r \<in> \<int>"
  then obtain n where "r = of_int n" by (auto elim: Ints_cases)
  then show "Fraction_denominator r = 1" by (simp add: Fraction_denominator_def)
qed

lemma int_Fraction_of_int: "int_Fraction (of_int n) = n"
  by (simp add: int_Fraction_def Fraction_numerator_def Fraction_denominator_def)

lemma int_Fraction_Ints: "r \<in> \<int> \<Longrightarrow> int_Fraction r = \<lfloor>r\<rfloor>"
  by (auto elim!: Ints_cases simp: int_Fraction_of_int)

lemma math_gcd2: "math_gcd [x, y] = gcd x y"
  by (simp add: math_gcd_def)

lemma math_gcd3: "math_gcd [x, y, z] = gcd x (gcd y z)"
  by (simp add: math_gcd_def)

lemma math_gcd4: "math_gcd [x, y, z, w] = gcd x (gcd y (gcd z w))"
  by (simp add: math_gcd_def)

lemma gcd3_facts:
  fixes x y z :: int
  assumes "0 < x" "0 < y" "0 < z"
  shows "0 < gcd x (gcd y z)" "x div gcd x (gcd y z) \<noteq> 0"
    "y div gcd x (gcd y z) \<noteq> 0" "z div gcd x (gcd y z) \<noteq> 0"
proof -
  let ?g = "gcd x (gcd y z)"
  show pos: "0 < ?g" using assms by simp
  have d: "?g dvd x" "?g dvd y" "?g dvd z"
    by (simp_all add: gcd_dvdI2)
  show "x div ?g \<noteq> 0" using d(1) assms(1) by (simp add: dvd_div_eq_0_iff)
  show "y div ?g \<noteq> 0" using d(2) assms(2) by (simp add: dvd_div_eq_0_iff)
  show "z div ?g \<noteq> 0" using d(3) assms(3) by (simp add: dvd_div_eq_0_iff)
qed

section \<open>The engine on valid arguments\<close>

lemma compute_triad_valid:
  assumes v: "list_all positive_int [C1, C2, C3, a, b]"
  shows "compute_triad C1 C2 C3 a b =
    (let g = gcd (int_val C1) (gcd (int_val C2) (int_val C3));
         C4_prime = Fract (int_val a * (int_val C2 div g) * (int_val C3 div g))
                          (int_val b * (int_val C1 div g));
         C4 = C4_prime * of_int g;
         K = Fract 1 (int_val a * int_val b)
     in and_then (str_Fraction C4_prime) (\<lambda>C4_prime_str.
        if C4 \<in> \<int>
        then and_then (str_Fraction K) (\<lambda>K_str.
          Inr (\<lfloor>C4\<rfloor>, K,
          [(''inputs'', PDict [(''C1'', C1), (''C2'', C2), (''C3'', C3), (''a'', a), (''b'', b)]),
           (''normalization'',
              PDict [(''gcd_in'', PInt g), (''C1_prime'', PInt (int_val C1 div g)),
                     (''C2_prime'', PInt (int_val C2 div g)),
                     (''C3_prime'', PInt (int_val C3 div g))]),
           (''transformation'', PDict [(''C4_prime'', PStr C4_prime_str)]),
           (''denormalization'', PDict [(''C4'', PInt \<lfloor>C4\<rfloor>)]),
           (''K'', PStr K_str)]))
        else Inl NonIntegerResult))"
proof -
  have p: "0 < int_val C1" "0 < int_val C2" "0 < int_val C3" "0 < int_val a" "0 < int_val b"
    using v by (simp_all add: positive_int_def)
  note g = gcd3_facts [OF p(1) p(2) p(3)]
  have nz: "int_val a \<noteq> 0" "int_val b \<noteq> 0" using p by simp_all
  define g where "g = gcd (int_val C1) (gcd (int_val C2) (int_val C3))"
  have f: "floordiv (int_val C1) g = Inr (int_val C1 div g)"
    "floordiv (int_val C2) g = Inr (int_val C2 div g)"
    "floordiv (int_val C3) g = Inr (int_val C3 div g)"
    using g(1) by (simp_all add: floordiv_def g_def)
  have fr: "Fraction (int_val a * (int_val C2 div g) * (int_val C3 div g))
              (int_val b * (int_val C1 div g))
            = Inr (Fract (int_val a * (int_val C2 div g) * (int_val C3 div g))
                     (int_val b * (int_val C1 div g)))"
    using g nz by (simp add: Fraction_def g_def)
  have k: "Fraction 1 (int_val a * int_val b) = Inr (Fract 1 (int_val a * int_val b))"
    using nz by (simp add: Fraction_def)
  show ?thesis
    unfolding compute_triad_def math_gcd3 g_def [symmetric]
    using v
    by (cases "Fract (int_val a * (int_val C2 div g) * (int_val C3 div g))
                 (int_val b * (int_val C1 div g)) * of_int g \<in> \<int>")
       (simp_all add: Let_def f fr k Fraction_denominator_1_iff int_Fraction_Ints
          NonIntegerResult_def)
qed

lemma triad_cancel:
  fixes C1 C2 C3 a b :: int
  assumes "0 < C1" "0 < C2" "0 < C3" "0 < b"
  shows "Fract (a * (C2 div gcd C1 (gcd C2 C3)) * (C3 div gcd C1 (gcd C2 C3)))
               (b * (C1 div gcd C1 (gcd C2 C3))) * of_int (gcd C1 (gcd C2 C3))
         = of_int (a * C2 * C3) / of_int (b * C1)"
proof -
  let ?g = "gcd C1 (gcd C2 C3)"
  have g: "0 < ?g" using assms by simp
  have d: "?g dvd C1" "?g dvd C2" "?g dvd C3"
    by (simp_all add: gcd_dvdI2)
  have gr: "(of_int ?g :: rat) \<noteq> 0" using g by simp
  have c: "(of_int C1 :: rat) \<noteq> 0" "(of_int b :: rat) \<noteq> 0" using assms by simp_all
  show ?thesis
    using gr c
    by (simp add: Fract_of_int_quotient of_int_div [OF d(1)] of_int_div [OF d(2)]
        of_int_div [OF d(3)] field_simps)
qed

lemma valid_PInt: "0 < C1 \<Longrightarrow> 0 < C2 \<Longrightarrow> 0 < C3 \<Longrightarrow> 0 < a \<Longrightarrow> 0 < b \<Longrightarrow>
   list_all positive_int [PInt C1, PInt C2, PInt C3, PInt a, PInt b]"
  by (simp add: positive_int_def)

lemma analogy_variant_valid:
  assumes v: "list_all positive_int [C1, C2, C3]"
  shows "analogy_variant C1 C2 C3 =
    (let g = gcd (int_val C1) (gcd (int_val C2) (int_val C3));
         C4_prime = Fract ((int_val C1 div g) * (int_val C3 div g)) (int_val C2 div g);
         C4 = C4_prime * of_int g
     in and_then (str_Fraction C4_prime) (\<lambda>C4_prime_str.
        if C4 \<in> \<int>
        then and_then (str_Fraction 1) (\<lambda>K_str.
          Inr (\<lfloor>C4\<rfloor>, 1,
          [(''normalization'',
              PDict [(''gcd_in'', PInt g), (''C1_prime'', PInt (int_val C1 div g)),
                     (''C2_prime'', PInt (int_val C2 div g)),
                     (''C3_prime'', PInt (int_val C3 div g))]),
           (''transformation'', PDict [(''C4_prime'', PStr C4_prime_str)]),
           (''denormalization'', PDict [(''C4'', PInt \<lfloor>C4\<rfloor>)]),
           (''K'', PStr K_str)]))
        else Inl NonIntegerAnalogy))"
proof -
  have p: "0 < int_val C1" "0 < int_val C2" "0 < int_val C3"
    using v by (simp_all add: positive_int_def)
  note g = gcd3_facts [OF p(1) p(2) p(3)]
  define g where "g = gcd (int_val C1) (gcd (int_val C2) (int_val C3))"
  have f: "floordiv (int_val C1) g = Inr (int_val C1 div g)"
    "floordiv (int_val C2) g = Inr (int_val C2 div g)"
    "floordiv (int_val C3) g = Inr (int_val C3 div g)"
    using g(1) by (simp_all add: floordiv_def g_def)
  have fr: "Fraction ((int_val C1 div g) * (int_val C3 div g)) (int_val C2 div g)
              = Inr (Fract ((int_val C1 div g) * (int_val C3 div g)) (int_val C2 div g))"
    using g by (simp add: Fraction_def g_def)
  have k: "Fraction 1 1 = Inr 1" by (simp add: Fraction_def rat_number_collapse)
  show ?thesis
    unfolding analogy_variant_def math_gcd3 g_def [symmetric]
    using v
    by (cases "Fract ((int_val C1 div g) * (int_val C3 div g)) (int_val C2 div g) * of_int g \<in> \<int>")
       (simp_all add: Let_def f fr k Fraction_denominator_1_iff int_Fraction_Ints
          NonIntegerAnalogy_def)
qed

lemma gcd4_facts:
  fixes x y z w :: int
  assumes "0 < x" "0 < y" "0 < z" "0 < w"
  shows "0 < gcd x (gcd y (gcd z w))" "0 < x div gcd x (gcd y (gcd z w))"
    "0 < y div gcd x (gcd y (gcd z w))" "0 < z div gcd x (gcd y (gcd z w))"
    "0 < w div gcd x (gcd y (gcd z w))"
proof -
  let ?g = "gcd x (gcd y (gcd z w))"
  show pos: "0 < ?g" using assms by simp
  have d: "?g dvd x" "?g dvd y" "?g dvd z" "?g dvd w"
    by (simp_all add: gcd_dvdI2)
  have le: "?g \<le> x" "?g \<le> y" "?g \<le> z" "?g \<le> w"
    using d assms by (simp_all add: zdvd_imp_le)
  show "0 < x div ?g" using le(1) pos by (simp add: pos_imp_zdiv_pos_iff)
  show "0 < y div ?g" using le(2) pos by (simp add: pos_imp_zdiv_pos_iff)
  show "0 < z div ?g" using le(3) pos by (simp add: pos_imp_zdiv_pos_iff)
  show "0 < w div ?g" using le(4) pos by (simp add: pos_imp_zdiv_pos_iff)
qed

lemma quotient_of_pos:
  assumes "0 < r"
  shows "0 < fst (quotient_of r)" "0 < snd (quotient_of r)" "coprime (fst (quotient_of r)) (snd (quotient_of r))"
proof -
  obtain n d where q: "quotient_of r = (n, d)" by (cases "quotient_of r")
  have d: "0 < d" using quotient_of_denom_pos [OF q] .
  have "r = of_int n / of_int d" using quotient_of_div [OF q] .
  with assms d have "0 < n" by (simp add: zero_less_divide_iff)
  then show "0 < fst (quotient_of r)" by (simp add: q)
  show "0 < snd (quotient_of r)" using d by (simp add: q)
  show "coprime (fst (quotient_of r)) (snd (quotient_of r))"
    using quotient_of_coprime [OF q] by (simp add: q)
qed

lemma check_static_balance_valid:
  assumes v: "list_all positive_int [C1, C2, C3, C4]"
  shows "check_static_balance C1 C2 C3 C4 =
    (let g = gcd (int_val C1) (gcd (int_val C2) (gcd (int_val C3) (int_val C4)));
         ratio = Fract ((int_val C1 div g) * (int_val C4 div g))
                       ((int_val C2 div g) * (int_val C3 div g));
         a = fst (quotient_of ratio);
         b = snd (quotient_of ratio);
         K = Fract 1 (a * b)
     in and_then (str_Fraction K) (\<lambda>K_str.
        Inr (a, b, K,
          [(''inputs'', PDict [(''C1'', C1), (''C2'', C2), (''C3'', C3), (''C4'', C4)]),
           (''normalization'',
              PDict [(''gcd_in'', PInt g), (''C1_prime'', PInt (int_val C1 div g)),
                     (''C2_prime'', PInt (int_val C2 div g)),
                     (''C3_prime'', PInt (int_val C3 div g)),
                     (''C4_prime'', PInt (int_val C4 div g))]),
           (''balancing'', PDict [(''a'', PInt a), (''b'', PInt b)]),
           (''K'', PStr K_str)])))"
proof -
  have p: "0 < int_val C1" "0 < int_val C2" "0 < int_val C3" "0 < int_val C4"
    using v by (simp_all add: positive_int_def)
  define g where "g = gcd (int_val C1) (gcd (int_val C2) (gcd (int_val C3) (int_val C4)))"
  define r where "r = Fract ((int_val C1 div g) * (int_val C4 div g))
                       ((int_val C2 div g) * (int_val C3 div g))"
  note gf = gcd4_facts [OF p, folded g_def]
  have "0 < r" using gf by (simp add: r_def zero_less_Fract_iff)
  note q = quotient_of_pos [OF this]
  have f: "floordiv (int_val C1) g = Inr (int_val C1 div g)"
    "floordiv (int_val C2) g = Inr (int_val C2 div g)"
    "floordiv (int_val C3) g = Inr (int_val C3 div g)"
    "floordiv (int_val C4) g = Inr (int_val C4 div g)"
    using gf(1) by (simp_all add: floordiv_def)
  have fr: "Fraction ((int_val C1 div g) * (int_val C4 div g))
              ((int_val C2 div g) * (int_val C3 div g)) = Inr r"
    using gf by (simp add: Fraction_def r_def)
  have c: "gcd (fst (quotient_of r)) (snd (quotient_of r)) = 1"
    using q(3) by (simp add: coprime_iff_gcd_eq_1)
  have fab: "floordiv (fst (quotient_of r)) 1 = Inr (fst (quotient_of r))"
    "floordiv (snd (quotient_of r)) 1 = Inr (snd (quotient_of r))"
    by (simp_all add: floordiv_def)
  have fk: "Fraction 1 (fst (quotient_of r) * snd (quotient_of r))
              = Inr (Fract 1 (fst (quotient_of r) * snd (quotient_of r)))"
    using q by (simp add: Fraction_def)
  have "check_static_balance C1 C2 C3 C4 =
     and_then (str_Fraction (Fract 1 (fst (quotient_of r) * snd (quotient_of r)))) (\<lambda>K_str.
     Inr (fst (quotient_of r), snd (quotient_of r),
          Fract 1 (fst (quotient_of r) * snd (quotient_of r)),
          [(''inputs'', PDict [(''C1'', C1), (''C2'', C2), (''C3'', C3), (''C4'', C4)]),
           (''normalization'',
              PDict [(''gcd_in'', PInt g), (''C1_prime'', PInt (int_val C1 div g)),
                     (''C2_prime'', PInt (int_val C2 div g)),
                     (''C3_prime'', PInt (int_val C3 div g)),
                     (''C4_prime'', PInt (int_val C4 div g))]),
           (''balancing'', PDict [(''a'', PInt (fst (quotient_of r))),
                                  (''b'', PInt (snd (quotient_of r)))]),
           (''K'', PStr K_str)]))"
    unfolding check_static_balance_def math_gcd4 math_gcd2 g_def [symmetric]
      Fraction_numerator_def Fraction_denominator_def
    using v
    by (simp add: Let_def f fr c fab fk)
  then show ?thesis
    by (simp add: Let_def g_def r_def)
qed

lemma Fraction_str_ok_unit:
  assumes "0 < n"
  shows "Fraction_str_ok (Fract 1 n) = str_digits_ok n"
proof -
  have "quotient_of (Fract 1 n) = (1, n)"
    using assms by (simp add: quotient_of_Fract Rat.normalize_def Let_def)
  then show ?thesis
    by (simp add: Fraction_str_ok_def Fraction_numerator_def Fraction_denominator_def)
qed



lemma C4_of_and_then_str:
  "C4_of (and_then (str_Fraction r) (\<lambda>s. Inr (C4, K, f s))) =
     (if Fraction_str_ok r then Inr C4 else Inl StrDigitsExceeded)"
  using str_Fraction_cases [of r] by (auto simp add: C4_of_def)

lemma compute_triad_C4_of:
  assumes p: "0 < C1" "0 < C2" "0 < C3" "0 < a" "0 < b"
  shows "C4_of (compute_triad (PInt C1) (PInt C2) (PInt C3) (PInt a) (PInt b)) =
    (let g = gcd C1 (gcd C2 C3);
         C4_prime = Fract (a * (C2 div g) * (C3 div g)) (b * (C1 div g))
     in if Fraction_str_ok C4_prime
        then if C4_prime * of_int g \<in> \<int>
             then if str_digits_ok (a * b) then Inr \<lfloor>C4_prime * of_int g\<rfloor>
                  else Inl StrDigitsExceeded
             else Inl NonIntegerResult
        else Inl StrDigitsExceeded)"
proof -
  define g where "g = gcd C1 (gcd C2 C3)"
  define C4_prime where "C4_prime = Fract (a * (C2 div g) * (C3 div g)) (b * (C1 div g))"
  have ab: "0 < a * b" using p by simp
  show ?thesis
  proof (cases "Fraction_str_ok C4_prime")
    case False
    then show ?thesis
      unfolding compute_triad_valid [OF valid_PInt [OF p]] Let_def int_val.simps
        g_def [symmetric] C4_prime_def [symmetric]
      by (simp add: str_Fraction_exceeded C4_of_def)
  next
    case True
    then obtain s where s: "str_Fraction C4_prime = Inr s"
      using str_Fraction_ok_iff by blast
    show ?thesis
      unfolding compute_triad_valid [OF valid_PInt [OF p]] Let_def int_val.simps
        g_def [symmetric] C4_prime_def [symmetric]
      using True
      by (simp add: s C4_of_and_then_str Fraction_str_ok_unit [OF ab])
         (simp add: C4_of_def)
  qed
qed

section \<open>The forward transform\<close>







text \<open>
  Claim C3, as the code has it. \<open>compute_triad(18, 6, 8, 3, 4)\<close> succeeds with \<open>C4 = 2\<close>
  (not 6) and \<open>K = 1/12\<close>; the whole outcome, trace included, is the one below. The
  source agrees with itself here: its network example registers the next triad of the
  chain with \<open>C1 = 2\<close>.
\<close>

theorem scenario_A_value:
  "compute_triad (PInt 18 :: unit pyval) (PInt 6) (PInt 8) (PInt 3) (PInt 4) =
     Inr (2, 1 / 12,
       [(''inputs'', PDict [(''C1'', PInt 18), (''C2'', PInt 6), (''C3'', PInt 8),
                           (''a'', PInt 3), (''b'', PInt 4)]),
        (''normalization'', PDict [(''gcd_in'', PInt 2), (''C1_prime'', PInt 9),
                                  (''C2_prime'', PInt 3), (''C3_prime'', PInt 4)]),
        (''transformation'', PDict [(''C4_prime'', PStr ''1'')]),
        (''denormalization'', PDict [(''C4'', PInt 2)]),
        (''K'', PStr ''1/12'')])"
  by code_simp

text \<open>The value 6 that scenario A of the specification names is not what is returned.\<close>

theorem scenario_A_counterexample:
  "C4_of (compute_triad (PInt 18 :: unit pyval) (PInt 6) (PInt 8) (PInt 3) (PInt 4)) \<noteq> Inr 6"
  by code_simp

text \<open>
  Claim C6, as the code has it. A successful \<open>compute_triad\<close> returns a trace with exactly
  the stages \<open>inputs\<close>, \<open>normalization\<close>, \<open>transformation\<close>, \<open>denormalization\<close> and \<open>K\<close>, in
  this order, and no stage \<open>balancing\<close>. The \<open>transformation\<close> stage holds under
  \<open>C4_prime\<close> the string of the rational \<open>C4' = C4 / g\<close>, and the \<open>K\<close> stage is the string of
  the rational \<open>K = 1 / (a \<cdot> b)\<close>.
\<close>

theorem trace_stages:
  assumes "compute_triad C1 C2 C3 a b = Inr (C4, K, steps)"
  shows "map fst steps =
           [''inputs'', ''normalization'', ''transformation'', ''denormalization'', ''K''] \<and>
         (\<exists>s. str_Fraction (of_int C4 / of_int (gcd (int_val C1) (gcd (int_val C2) (int_val C3))))
                = Inr s \<and>
              map_of steps ''transformation'' = Some (PDict [(''C4_prime'', PStr s)])) \<and>
         (\<exists>s. str_Fraction K = Inr s \<and> map_of steps ''K'' = Some (PStr s)) \<and>
         K = 1 / of_int (int_val a * int_val b)"
proof (cases "list_all positive_int [C1, C2, C3, a, b]")
  case True
  define g where "g = gcd (int_val C1) (gcd (int_val C2) (int_val C3))"
  define C4_prime where "C4_prime = Fract (int_val a * (int_val C2 div g) * (int_val C3 div g))
                          (int_val b * (int_val C1 div g))"
  have p: "0 < int_val C1" "0 < int_val C2" "0 < int_val C3"
    using True by (simp_all add: positive_int_def)
  have g: "(of_int g :: rat) \<noteq> 0" using gcd3_facts(1) [OF p] by (simp add: g_def)
  note r = assms [unfolded compute_triad_valid [OF True] Let_def,
      folded g_def, folded C4_prime_def]
  from r obtain s1 where s1: "str_Fraction C4_prime = Inr s1"
    by (cases "str_Fraction C4_prime") simp_all
  from r s1 have i: "C4_prime * of_int g \<in> \<int>"
    by (simp split: if_splits)
  from r s1 i obtain s2 where s2: "str_Fraction (Fract 1 (int_val a * int_val b)) = Inr s2"
    by (cases "str_Fraction (Fract 1 (int_val a * int_val b))") simp_all
  from r s1 i s2 have e: "C4 = \<lfloor>C4_prime * of_int g\<rfloor>" "K = Fract 1 (int_val a * int_val b)"
    "steps = [(''inputs'', PDict [(''C1'', C1), (''C2'', C2), (''C3'', C3), (''a'', a), (''b'', b)]),
           (''normalization'',
              PDict [(''gcd_in'', PInt g), (''C1_prime'', PInt (int_val C1 div g)),
                     (''C2_prime'', PInt (int_val C2 div g)),
                     (''C3_prime'', PInt (int_val C3 div g))]),
           (''transformation'', PDict [(''C4_prime'', PStr s1)]),
           (''denormalization'', PDict [(''C4'', PInt \<lfloor>C4_prime * of_int g\<rfloor>)]),
           (''K'', PStr s2)]"
    by auto
  have "of_int C4 = C4_prime * of_int g"
    using i by (simp add: e(1))
  then have c: "of_int C4 / of_int g = C4_prime" using g by simp
  show ?thesis
    unfolding g_def [symmetric] c
    using s1 s2
    by (simp add: e(3)) (simp add: e(2) Fract_of_int_quotient)
next
  case False
  then show ?thesis using assms by (simp add: compute_triad_def)
qed

theorem trace_stages_witness:
  "compute_triad (PInt 4 :: unit pyval) (PInt 2) (PInt 2) (PInt 1) (PInt 1) =
     Inr (1, Fract 1 1,
       [(''inputs'', PDict [(''C1'', PInt 4), (''C2'', PInt 2), (''C3'', PInt 2),
                           (''a'', PInt 1), (''b'', PInt 1)]),
        (''normalization'', PDict [(''gcd_in'', PInt 2), (''C1_prime'', PInt 2),
                                  (''C2_prime'', PInt 1), (''C3_prime'', PInt 1)]),
        (''transformation'', PDict [(''C4_prime'', PStr ''1/2'')]),
        (''denormalization'', PDict [(''C4'', PInt 1)]),
        (''K'', PStr ''1'')]) \<and>
   str_Fraction (of_int 1 / of_int (gcd (4 :: int) (gcd 2 2))) = Inr ''1/2'' \<and>
   str_Fraction (Fract 1 1) = Inr ''1''"
proof -
  have h: "compute_triad (PInt 4 :: unit pyval) (PInt 2) (PInt 2) (PInt 1) (PInt 1) =
     Inr (1, Fract 1 1,
       [(''inputs'', PDict [(''C1'', PInt 4), (''C2'', PInt 2), (''C3'', PInt 2),
                           (''a'', PInt 1), (''b'', PInt 1)]),
        (''normalization'', PDict [(''gcd_in'', PInt 2), (''C1_prime'', PInt 2),
                                  (''C2_prime'', PInt 1), (''C3_prime'', PInt 1)]),
        (''transformation'', PDict [(''C4_prime'', PStr ''1/2'')]),
        (''denormalization'', PDict [(''C4'', PInt 1)]),
        (''K'', PStr ''1'')])"
    by code_simp
  from trace_stages [OF h] h show ?thesis by (simp add: rat_number_collapse)
qed

text \<open>
  The stage \<open>balancing\<close> that the claim lists is absent from the trace of a successful
  call; only \<open>check_static_balance\<close> writes it.
\<close>

theorem trace_balancing_counterexample:
  "C4_of (compute_triad (PInt 4 :: unit pyval) (PInt 2) (PInt 2) (PInt 1) (PInt 1)) = Inr 1 \<and>
   \<not> has_stage (compute_triad (PInt 4 :: unit pyval) (PInt 2) (PInt 2) (PInt 1) (PInt 1))
        ''balancing''"
  by code_simp

section \<open>Validation\<close>

lemma InvalidInput_distinct:
  "NonIntegerResult \<noteq> InvalidInput" "NonIntegerAnalogy \<noteq> InvalidInput"
  "StrDigitsExceeded \<noteq> InvalidInput"
  by (simp_all add: NonIntegerResult_def NonIntegerAnalogy_def InvalidInput_def
      StrDigitsExceeded_def)

lemma and_then_str_Fraction_neq:
  assumes "\<And>s. f s \<noteq> Inl InvalidInput"
  shows "and_then (str_Fraction r) f \<noteq> Inl InvalidInput"
  using str_Fraction_cases [of r] assms by (auto simp add: InvalidInput_distinct)

text \<open>
  Claim C5. Each of \<open>compute_triad\<close>, \<open>analogy_variant\<close> and \<open>check_static_balance\<close> raises the
  invalid-input error if and only if one of its arguments is not a positive integer, that
  is, not an instance of \<^verbatim>\<open>int\<close> with a value above 0 (Python's \<^verbatim>\<open>True\<close> is the \<^verbatim>\<open>int\<close> 1).
  The outcome is then the error alone, without a trace, and it comes before the
  arithmetic: no division by zero happens first, as at the all-zero arguments below.
\<close>

theorem InvalidInput_iff:
  "(compute_triad C1 C2 C3 a b = Inl InvalidInput
      \<longleftrightarrow> \<not> list_all positive_int [C1, C2, C3, a, b]) \<and>
   (analogy_variant C1 C2 C3 = Inl InvalidInput
      \<longleftrightarrow> \<not> list_all positive_int [C1, C2, C3]) \<and>
   (check_static_balance C1 C2 C3 C4 = Inl InvalidInput
      \<longleftrightarrow> \<not> list_all positive_int [C1, C2, C3, C4])"
proof (intro conjI)
  show "compute_triad C1 C2 C3 a b = Inl InvalidInput
      \<longleftrightarrow> \<not> list_all positive_int [C1, C2, C3, a, b]"
  proof (cases "list_all positive_int [C1, C2, C3, a, b]")
    case True
    have "compute_triad C1 C2 C3 a b \<noteq> Inl InvalidInput"
      unfolding compute_triad_valid [OF True] Let_def
      by (intro and_then_str_Fraction_neq) (simp add: InvalidInput_distinct and_then_str_Fraction_neq)
    with True show ?thesis by simp
  next
    case False
    then show ?thesis by (simp add: compute_triad_def InvalidInput_def)
  qed
  show "analogy_variant C1 C2 C3 = Inl InvalidInput
      \<longleftrightarrow> \<not> list_all positive_int [C1, C2, C3]"
  proof (cases "list_all positive_int [C1, C2, C3]")
    case True
    have "analogy_variant C1 C2 C3 \<noteq> Inl InvalidInput"
      unfolding analogy_variant_valid [OF True] Let_def
      by (intro and_then_str_Fraction_neq) (simp add: InvalidInput_distinct and_then_str_Fraction_neq)
    with True show ?thesis by simp
  next
    case False
    then show ?thesis by (simp add: analogy_variant_def InvalidInput_def)
  qed
  show "check_static_balance C1 C2 C3 C4 = Inl InvalidInput
      \<longleftrightarrow> \<not> list_all positive_int [C1, C2, C3, C4]"
  proof (cases "list_all positive_int [C1, C2, C3, C4]")
    case True
    have "check_static_balance C1 C2 C3 C4 \<noteq> Inl InvalidInput"
      unfolding check_static_balance_valid [OF True] Let_def
      by (intro and_then_str_Fraction_neq) simp
    with True show ?thesis by simp
  next
    case False
    then show ?thesis by (simp add: check_static_balance_def InvalidInput_def)
  qed
qed

theorem InvalidInput_iff_witness:
  "compute_triad (PInt 0 :: unit pyval) (PInt 0) (PInt 0) (PInt 1) (PInt 1) = Inl InvalidInput \<and>
   analogy_variant (PInt 3 :: unit pyval) (POther ()) (PInt 5) = Inl InvalidInput \<and>
   check_static_balance (PInt 1 :: unit pyval) (PInt 1) (PInt 2) (PInt (- 1)) = Inl InvalidInput"
  using InvalidInput_iff [of "PInt 0 :: unit pyval" "PInt 0" "PInt 0" "PInt 1" "PInt 1"]
    InvalidInput_iff [of "PInt 3 :: unit pyval" "POther ()" "PInt 5"]
    InvalidInput_iff [of "PInt 1 :: unit pyval" "PInt 1" "PInt 2" _ _ "PInt (- 1)"]
  by (simp add: positive_int_def)

section \<open>The analogy variant\<close>

text \<open>
  Claim C7. Whenever \<open>analogy_variant\<close> succeeds, the \<open>K\<close> it returns is the rational 1,
  whatever the arguments.
\<close>

theorem analogy_variant_K:
  assumes "analogy_variant C1 C2 C3 = Inr (C4, K, steps)"
  shows "K = 1"
proof (cases "list_all positive_int [C1, C2, C3]")
  case True
  show ?thesis
    using assms unfolding analogy_variant_valid [OF True] Let_def and_then_def
    by (simp split: if_splits sum.splits)
next
  case False
  then show ?thesis using assms by (simp add: analogy_variant_def)
qed

theorem analogy_variant_K_witness:
  "analogy_variant (PInt 21 :: unit pyval) (PInt 3) (PInt 5) =
     Inr (35, Fract 1 1,
       [(''normalization'', PDict [(''gcd_in'', PInt 1), (''C1_prime'', PInt 21),
                                  (''C2_prime'', PInt 3), (''C3_prime'', PInt 5)]),
        (''transformation'', PDict [(''C4_prime'', PStr ''35'')]),
        (''denormalization'', PDict [(''C4'', PInt 35)]),
        (''K'', PStr ''1'')]) \<and>
   Fract 1 1 = (1 :: rat)"
proof -
  have h: "analogy_variant (PInt 21 :: unit pyval) (PInt 3) (PInt 5) =
     Inr (35, Fract 1 1,
       [(''normalization'', PDict [(''gcd_in'', PInt 1), (''C1_prime'', PInt 21),
                                  (''C2_prime'', PInt 3), (''C3_prime'', PInt 5)]),
        (''transformation'', PDict [(''C4_prime'', PStr ''35'')]),
        (''denormalization'', PDict [(''C4'', PInt 35)]),
        (''K'', PStr ''1'')])"
    by code_simp
  from analogy_variant_K [OF h] h show ?thesis by simp
qed

section \<open>Chaining\<close>

lemma chain_loop_acc:
  "chain_loop c Ks ss ts =
     (case chain_loop c [] [] ts of
        Inl e \<Rightarrow> Inl e
      | Inr (final, Ks', ss') \<Rightarrow> Inr (final, Ks @ Ks', ss @ ss'))"
proof (induction ts arbitrary: c Ks ss)
  case Nil
  show ?case by simp
next
  case (Cons t ts)
  obtain C2 C3 a b where t: "t = (C2, C3, a, b)" by (cases t)
  show ?case
  proof (cases "compute_triad c C2 C3 a b")
    case (Inl e)
    then show ?thesis by (simp add: t and_then_def)
  next
    case (Inr r)
    obtain C4 K steps where r: "r = (C4, K, steps)" by (cases r)
    show ?thesis
      using Cons.IH [of "PInt C4" "Ks @ [K]" "ss @ [steps]"]
        Cons.IH [of "PInt C4" "[K]" "[steps]"]
      by (simp add: t Inr r and_then_def split: sum.splits)
  qed
qed

text \<open>
  Claim C4. \<open>chain_triads\<close> on no triads returns the initial \<open>C1\<close> with no \<open>K\<close> and no trace.
  On a first triad \<open>(C2, C3, a, b)\<close> it calls \<open>compute_triad\<close> with the current \<open>C1\<close>: an
  error of that call is the outcome, unchanged, whatever the later triads are; otherwise
  the returned \<open>C4\<close> is the \<open>C1\<close> of the rest of the chain, and the \<open>K\<close> and trace of the step
  come first in the lists of the outcome, before those of the later steps.
\<close>

theorem chain_triads_steps:
  "chain_triads c [] = Inr (c, [], []) \<and>
   chain_triads c ((C2, C3, a, b) # rest) =
     (case compute_triad c C2 C3 a b of
        Inl e \<Rightarrow> Inl e
      | Inr (C4, K, steps) \<Rightarrow>
         (case chain_triads (PInt C4) rest of
            Inl e \<Rightarrow> Inl e
          | Inr (final, Ks, traces) \<Rightarrow> Inr (final, K # Ks, steps # traces)))"
proof
  show "chain_triads c [] = Inr (c, [], [])" by (simp add: chain_triads_def)
  show "chain_triads c ((C2, C3, a, b) # rest) =
     (case compute_triad c C2 C3 a b of
        Inl e \<Rightarrow> Inl e
      | Inr (C4, K, steps) \<Rightarrow>
         (case chain_triads (PInt C4) rest of
            Inl e \<Rightarrow> Inl e
          | Inr (final, Ks, traces) \<Rightarrow> Inr (final, K # Ks, steps # traces)))"
  proof (cases "compute_triad c C2 C3 a b")
    case (Inl e)
    then show ?thesis by (simp add: chain_triads_def and_then_def)
  next
    case (Inr r)
    obtain C4 K steps where r: "r = (C4, K, steps)" by (cases r)
    show ?thesis
      using chain_loop_acc [of "PInt C4" "[K]" "[steps]" rest]
      by (simp add: chain_triads_def Inr r and_then_def split: sum.splits)
  qed
qed

text \<open>
  Claim C10. \<open>chain_triads\<close> validates nothing itself: on the empty list it returns any
  initial value unchanged, with two empty lists, and an initial value that is not a
  positive integer is rejected only by the \<open>compute_triad\<close> call of the first step.
\<close>

theorem chain_triads_no_validation:
  "chain_triads c [] = Inr (c, [], []) \<and>
   (\<not> positive_int c \<longrightarrow> chain_triads c ((C2, C3, a, b) # rest) = Inl InvalidInput)"
  by (simp add: chain_triads_def compute_triad_def and_then_def InvalidInput_def)

theorem chain_triads_no_validation_witness:
  "chain_triads (POther ''2.5'') [] = Inr (POther ''2.5'', [], []) \<and>
   \<not> positive_int (POther ''2.5'' :: string pyval) \<and>
   chain_triads (POther ''2.5'') [(PInt 6, PInt 8, PInt 3, PInt 4)] = Inl InvalidInput"
  using chain_triads_no_validation [of "POther ''2.5''" "PInt 6" "PInt 8" "PInt 3" "PInt 4" "[]"]
  by (simp add: positive_int_def)

section \<open>The inverse solver\<close>

lemma quotient_of_Fract_pos:
  assumes "0 < b"
  shows "quotient_of (Fract a b) = (a div gcd a b, b div gcd a b)"
  using assms by (simp add: quotient_of_Fract Rat.normalize_def Let_def)

lemma balance_ratio:
  fixes C1 C2 C3 C4 a b :: int
  assumes p: "0 < C1" "0 < C2" "0 < C3" "0 < C4" "0 < b"
    and e: "C4 * (b * C1) = a * C2 * C3"
  shows "Fract ((C1 div gcd C1 (gcd C2 (gcd C3 C4))) * (C4 div gcd C1 (gcd C2 (gcd C3 C4))))
               ((C2 div gcd C1 (gcd C2 (gcd C3 C4))) * (C3 div gcd C1 (gcd C2 (gcd C3 C4))))
         = Fract a b"
proof -
  define g where "g = gcd C1 (gcd C2 (gcd C3 C4))"
  have g: "g \<noteq> 0" using p by (simp add: g_def)
  have d: "g dvd C1" "g dvd C2" "g dvd C3" "g dvd C4"
    by (simp_all add: g_def gcd_dvdI2)
  obtain c1 c2 c3 c4 where c: "C1 = g * c1" "C2 = g * c2" "C3 = g * c3" "C4 = g * c4"
    using d by (auto elim!: dvdE)
  have q: "C1 div g = c1" "C2 div g = c2" "C3 div g = c3" "C4 div g = c4"
    using g by (simp_all add: c)
  have nz: "c2 * c3 \<noteq> 0" using p c by auto
  from e have "(g * g) * (c1 * c4 * b) = (g * g) * (a * (c2 * c3))"
    by (simp add: c algebra_simps)
  then have "c1 * c4 * b = a * (c2 * c3)" using g by simp
  then have "Fract (c1 * c4) (c2 * c3) = Fract a b"
    using nz p(5) by (simp add: eq_rat)
  then show ?thesis by (simp add: g_def [symmetric] q)
qed

text \<open>
  Claim C2. Round trip: when \<open>compute_triad\<close> on positive integers \<open>C1\<close>, \<open>C2\<close>, \<open>C3\<close>, \<open>a\<close>, \<open>b\<close>
  succeeds with \<open>C4\<close>, \<open>check_static_balance\<close> on \<open>C1\<close>, \<open>C2\<close>, \<open>C3\<close>, \<open>C4\<close> succeeds too, and
  returns a co-prime pair \<open>(a', b')\<close> of positive integers with \<open>a'/b' = a/b\<close>, namely \<open>a\<close> and
  \<open>b\<close> divided by their gcd, together with \<open>K' = 1 / (a' \<cdot> b')\<close>.
\<close>

theorem round_trip:
  assumes p: "0 < C1" "0 < C2" "0 < C3" "0 < a" "0 < b"
    and r: "compute_triad (PInt C1) (PInt C2) (PInt C3) (PInt a) (PInt b) = Inr (C4, K, steps)"
  shows "\<exists>a' b' K' steps'.
           check_static_balance (PInt C1) (PInt C2) (PInt C3) (PInt C4) = Inr (a', b', K', steps') \<and>
           coprime a' b' \<and> 0 < a' \<and> 0 < b' \<and>
           (of_int a' / of_int b' :: rat) = of_int a / of_int b \<and>
           a' = a div gcd a b \<and> b' = b div gcd a b \<and>
           K' = 1 / of_int (a' * b')"
proof -
  let ?q = "of_int (a * C2 * C3) / of_int (b * C1) :: rat"
  from arg_cong [where f = C4_of, OF r]
  have i: "?q \<in> \<int>" and c4: "C4 = \<lfloor>?q\<rfloor>" and ab: "str_digits_ok (a * b)"
    unfolding compute_triad_C4_of [OF p] Let_def
    using p by (auto simp: triad_cancel C4_of_def split: if_splits)
  have q: "of_int C4 = ?q" using i by (simp add: c4)
  have "0 < ?q" using p by simp
  with q have C4: "0 < C4" by (metis of_int_0_less_iff)
  have "(of_int (C4 * (b * C1)) :: rat) = of_int (a * C2 * C3)"
    using q p by (simp add: field_simps)
  then have e: "C4 * (b * C1) = a * C2 * C3" by (simp only: of_int_eq_iff)
  have v4: "list_all positive_int [PInt C1, PInt C2, PInt C3, PInt C4]"
    using p C4 by (simp add: positive_int_def)
  have ratio: "Fract ((C1 div gcd C1 (gcd C2 (gcd C3 C4))) * (C4 div gcd C1 (gcd C2 (gcd C3 C4))))
               ((C2 div gcd C1 (gcd C2 (gcd C3 C4))) * (C3 div gcd C1 (gcd C2 (gcd C3 C4))))
         = Fract a b"
    using balance_ratio [OF p(1) p(2) p(3) C4 p(5) e] .
  define a' where "a' = a div gcd a b"
  define b' where "b' = b div gcd a b"
  have gp: "0 < gcd a b" using p by simp
  have quot: "quotient_of (Fract a b) = (a', b')"
    using p(5) by (simp add: quotient_of_Fract_pos a'_def b'_def)
  have pos: "0 < a'" "0 < b'" "coprime a' b'"
    using quotient_of_pos [of "Fract a b"] p by (simp_all add: quot zero_less_Fract_iff)
  have frac: "(of_int a' / of_int b' :: rat) = of_int a / of_int b"
    using quotient_of_div [OF quot] by (simp add: Fract_of_int_quotient)
  have g1: "1 \<le> gcd a b" using gp by linarith
  have nn: "0 \<le> a'" "0 \<le> b'" using pos by simp_all
  from mult_left_mono [OF g1 nn(1)] mult_left_mono [OF g1 nn(2)] have le: "a' \<le> a" "b' \<le> b"
    by (simp_all add: a'_def b'_def)
  have "a' * b' \<le> a * b"
    using le pos p by (intro mult_mono) simp_all
  then have "\<bar>a' * b'\<bar> \<le> \<bar>a * b\<bar>" using pos p by simp
  then have "str_digits_ok (a' * b')" using ab by (rule str_digits_ok_mono [rotated])
  moreover have "0 < a' * b'" using pos by simp
  ultimately have "Fraction_str_ok (Fract 1 (a' * b'))"
    by (simp add: Fraction_str_ok_unit)
  then obtain s where s: "str_Fraction (Fract 1 (a' * b')) = Inr s"
    using str_Fraction_ok_iff by blast
  have "check_static_balance (PInt C1) (PInt C2) (PInt C3) (PInt C4) =
    Inr (a', b', Fract 1 (a' * b'),
          [(''inputs'', PDict [(''C1'', PInt C1), (''C2'', PInt C2), (''C3'', PInt C3),
                              (''C4'', PInt C4)]),
           (''normalization'',
              PDict [(''gcd_in'', PInt (gcd C1 (gcd C2 (gcd C3 C4)))),
                     (''C1_prime'', PInt (C1 div gcd C1 (gcd C2 (gcd C3 C4)))),
                     (''C2_prime'', PInt (C2 div gcd C1 (gcd C2 (gcd C3 C4)))),
                     (''C3_prime'', PInt (C3 div gcd C1 (gcd C2 (gcd C3 C4)))),
                     (''C4_prime'', PInt (C4 div gcd C1 (gcd C2 (gcd C3 C4))))]),
           (''balancing'', PDict [(''a'', PInt a'), (''b'', PInt b')]),
           (''K'', PStr s)])"
    unfolding check_static_balance_valid [OF v4] Let_def int_val.simps ratio quot
    by (simp add: s)
  then show ?thesis
    using pos frac
    by (auto simp add: a'_def [symmetric] b'_def [symmetric] Fract_of_int_quotient)
qed

theorem round_trip_witness:
  "(0::int) < 4 \<and> (0::int) < 6 \<and> (0::int) < 10 \<and> (0::int) < 2 \<and>
   compute_triad (PInt 4 :: unit pyval) (PInt 6) (PInt 10) (PInt 4) (PInt 6) =
     Inr (10, Fract 1 24,
       [(''inputs'', PDict [(''C1'', PInt 4), (''C2'', PInt 6), (''C3'', PInt 10),
                           (''a'', PInt 4), (''b'', PInt 6)]),
        (''normalization'', PDict [(''gcd_in'', PInt 2), (''C1_prime'', PInt 2),
                                  (''C2_prime'', PInt 3), (''C3_prime'', PInt 5)]),
        (''transformation'', PDict [(''C4_prime'', PStr ''5'')]),
        (''denormalization'', PDict [(''C4'', PInt 10)]),
        (''K'', PStr ''1/24'')]) \<and>
   (\<exists>K' steps'.
      check_static_balance (PInt 4 :: unit pyval) (PInt 6) (PInt 10) (PInt 10) =
        Inr (2, 3, K', steps') \<and> K' = 1 / 6)"
proof -
  have h: "compute_triad (PInt 4 :: unit pyval) (PInt 6) (PInt 10) (PInt 4) (PInt 6) =
     Inr (10, Fract 1 24,
       [(''inputs'', PDict [(''C1'', PInt 4), (''C2'', PInt 6), (''C3'', PInt 10),
                           (''a'', PInt 4), (''b'', PInt 6)]),
        (''normalization'', PDict [(''gcd_in'', PInt 2), (''C1_prime'', PInt 2),
                                  (''C2_prime'', PInt 3), (''C3_prime'', PInt 5)]),
        (''transformation'', PDict [(''C4_prime'', PStr ''5'')]),
        (''denormalization'', PDict [(''C4'', PInt 10)]),
        (''K'', PStr ''1/24'')])"
    by code_simp
  have g: "gcd (4::int) 6 = 2" by code_simp
  from round_trip [OF _ _ _ _ _ h] h show ?thesis
    by (simp add: g) force
qed

section \<open>The triad graph: connections\<close>

lemma example_K:
  "K_of (compute_triad (PInt 18 :: unit pyval) (PInt 6) (PInt 8) (PInt 3) (PInt 4)) = Inr (1 / 12)"
  "K_of (compute_triad (PInt 2 :: unit pyval) (PInt 5) (PInt 10) (PInt 1) (PInt 1)) = Inr 1"
  by code_simp+

lemma add_triad_K_of:
  "add_triad self triad_id C1 C2 C3 a b =
     and_then (K_of (compute_triad C1 C2 C3 a b)) (\<lambda>K.
       Inr (self\<lparr>graph := add_node triad_id [''K'' \<mapsto> K] (graph self)\<rparr>))"
  by (simp add: add_triad_def K_of_def and_then_def split: sum.splits)

lemma network_example_built:
  "and_then (add_triad TriadicNetwork_init ''Delta1''
               (PInt 18 :: unit pyval) (PInt 6) (PInt 8) (PInt 3) (PInt 4))
     (\<lambda>net. add_triad net ''Delta2'' (PInt 2 :: unit pyval) (PInt 5) (PInt 10) (PInt 1) (PInt 1))
   = Inr network_example"
  by (simp add: add_triad_K_of example_K and_then_def add_node_def TriadicNetwork_init_def
      DiGraph_empty_def network_example_def)

lemma nodes_add_edge:
  "nodes G u \<noteq> None \<Longrightarrow> nodes G v \<noteq> None \<Longrightarrow> nodes (add_edge u v attr G) = nodes G"
  by (auto simp add: add_edge_def Let_def)

lemma edges_add_edge:
  "edges (add_edge u v attr G) =
     (edges G)((u, v) \<mapsto> (case edges G (u, v) of None \<Rightarrow> attr | Some old \<Rightarrow> old ++ attr))"
  by (simp add: add_edge_def Let_def)

lemma nodes_have_K_init: "nodes_have_K TriadicNetwork_init"
  by (simp add: nodes_have_K_def has_node_def TriadicNetwork_init_def DiGraph_empty_def)

lemma nodes_have_K_add_triad:
  assumes "nodes_have_K self" and "add_triad self triad_id C1 C2 C3 a b = Inr self'"
  shows "nodes_have_K self'"
proof -
  from assms(2) obtain C4 K steps where
    "self' = self\<lparr>graph := add_node triad_id [''K'' \<mapsto> K] (graph self)\<rparr>"
    by (auto simp add: add_triad_def and_then_def split: sum.splits)
  with assms(1) show ?thesis
    by (auto simp add: nodes_have_K_def has_node_def stored_K_def add_node_def
        split: option.splits)
qed

lemma nodes_have_K_add_connection:
  assumes "nodes_have_K self" and "add_connection self from_id to_id = Inr self'"
  shows "nodes_have_K self'"
proof (cases "from_id \<in> dom (nodes (graph self)) \<and> to_id \<in> dom (nodes (graph self))")
  case True
  then have n: "nodes (graph self) from_id \<noteq> None" "nodes (graph self) to_id \<noteq> None"
    by auto
  from assms(2) True obtain w where
    "self' = self\<lparr>graph := add_edge from_id to_id [''weight'' \<mapsto> w] (graph self)\<rparr>"
    by (auto simp add: add_connection_def split: option.splits)
  with assms(1) show ?thesis
    by (simp add: nodes_have_K_def has_node_def stored_K_def nodes_add_edge [OF n])
next
  case False
  with assms show ?thesis by (simp add: add_connection_def)
qed

lemma nodes_have_K_example: "nodes_have_K network_example"
proof -
  from network_example_built obtain net where
    a1: "add_triad TriadicNetwork_init ''Delta1''
           (PInt 18 :: unit pyval) (PInt 6) (PInt 8) (PInt 3) (PInt 4) = Inr net" and
    a2: "add_triad net ''Delta2''
           (PInt 2 :: unit pyval) (PInt 5) (PInt 10) (PInt 1) (PInt 1) = Inr network_example"
    by (auto simp add: and_then_def split: sum.splits)
  show ?thesis
    using nodes_have_K_add_triad [OF nodes_have_K_add_triad [OF nodes_have_K_init a1] a2] .
qed

text \<open>
  Claim C8. In a network whose nodes all carry \<open>K\<close> (every network built by \<open>add_triad\<close> and
  \<open>add_connection\<close>), \<open>add_connection\<close> never raises. When both endpoints are nodes, the edge
  from \<open>from_id\<close> to \<open>to_id\<close> is present afterwards, its weight is the \<open>K\<close> stored on
  \<open>from_id\<close>, and nodes and other edges are as before. When an endpoint is missing, the
  network is returned unchanged: no edge and no node is created.
\<close>

theorem add_connection_edge:
  assumes "nodes_have_K self"
  shows "\<exists>self'. add_connection self from_id to_id = Inr self' \<and>
           (if has_node self from_id \<and> has_node self to_id
            then has_edge self' from_id to_id \<and>
                 stored_K self from_id \<noteq> None \<and>
                 edge_weight self' from_id to_id = stored_K self from_id \<and>
                 nodes (graph self') = nodes (graph self) \<and>
                 (\<forall>e. e \<noteq> (from_id, to_id) \<longrightarrow> edges (graph self') e = edges (graph self) e)
            else self' = self)"
proof (cases "has_node self from_id \<and> has_node self to_id")
  case True
  then have n: "nodes (graph self) from_id \<noteq> None" "nodes (graph self) to_id \<noteq> None"
    by (simp_all add: has_node_def)
  then obtain attrs where a: "nodes (graph self) from_id = Some attrs" by auto
  from assms True a obtain w where w: "attrs ''K'' = Some w"
    by (auto simp add: nodes_have_K_def stored_K_def has_node_def)
  have r: "add_connection self from_id to_id =
             Inr (self\<lparr>graph := add_edge from_id to_id [''weight'' \<mapsto> w] (graph self)\<rparr>)"
    using n a w by (auto simp add: add_connection_def)
  show ?thesis
    using True a w
    by (simp add: r has_edge_def edge_weight_def stored_K_def edges_add_edge
        nodes_add_edge [OF n] split: option.splits)
next
  case False
  then show ?thesis
    by (auto simp add: add_connection_def has_node_def)
qed

theorem add_connection_edge_witness:
  "nodes_have_K network_example \<and>
   add_connection network_example ''Delta1'' ''Delta2'' =
     Inr \<lparr>graph = \<lparr>nodes = [''Delta1'' \<mapsto> [''K'' \<mapsto> 1 / 12], ''Delta2'' \<mapsto> [''K'' \<mapsto> 1]],
                    edges = [(''Delta1'', ''Delta2'') \<mapsto> [''weight'' \<mapsto> 1 / 12]]\<rparr>\<rparr> \<and>
   stored_K network_example ''Delta1'' = Some (1 / 12) \<and>
   edge_weight
     \<lparr>graph = \<lparr>nodes = [''Delta1'' \<mapsto> [''K'' \<mapsto> 1 / 12], ''Delta2'' \<mapsto> [''K'' \<mapsto> 1]],
               edges = [(''Delta1'', ''Delta2'') \<mapsto> [''weight'' \<mapsto> 1 / 12]]\<rparr>\<rparr>
     ''Delta1'' ''Delta2'' = Some (1 / 12) \<and>
   add_connection network_example ''Delta1'' ''Delta3'' = Inr network_example \<and>
   add_connection network_example ''Delta3'' ''Delta2'' = Inr network_example"
proof -
  have k: "stored_K network_example ''Delta1'' = Some (1 / 12)"
    by (simp add: stored_K_def network_example_def)
  have n: "has_node network_example ''Delta1''" "has_node network_example ''Delta2''"
    "\<not> has_node network_example ''Delta3''"
    by (simp_all add: has_node_def network_example_def)
  from add_connection_edge [OF nodes_have_K_example, of "''Delta1''" "''Delta2''"] n k
  obtain net where
    c: "add_connection network_example ''Delta1'' ''Delta2'' = Inr net" and
    w: "edge_weight net ''Delta1'' ''Delta2'' = Some (1 / 12)"
    by auto
  have e: "add_connection network_example ''Delta1'' ''Delta2'' =
     Inr \<lparr>graph = \<lparr>nodes = [''Delta1'' \<mapsto> [''K'' \<mapsto> 1 / 12], ''Delta2'' \<mapsto> [''K'' \<mapsto> 1]],
                    edges = [(''Delta1'', ''Delta2'') \<mapsto> [''weight'' \<mapsto> 1 / 12]]\<rparr>\<rparr>"
    by (simp add: add_connection_def network_example_def add_edge_def Let_def)
  from add_connection_edge [OF nodes_have_K_example, of "''Delta1''" "''Delta3''"]
    add_connection_edge [OF nodes_have_K_example, of "''Delta3''" "''Delta2''"] n
  have m: "add_connection network_example ''Delta1'' ''Delta3'' = Inr network_example"
    "add_connection network_example ''Delta3'' ''Delta2'' = Inr network_example"
    by auto
  from c w e have
    "edge_weight
       \<lparr>graph = \<lparr>nodes = [''Delta1'' \<mapsto> [''K'' \<mapsto> 1 / 12], ''Delta2'' \<mapsto> [''K'' \<mapsto> 1]],
                 edges = [(''Delta1'', ''Delta2'') \<mapsto> [''weight'' \<mapsto> 1 / 12]]\<rparr>\<rparr>
       ''Delta1'' ''Delta2'' = Some (1 / 12)"
    by simp
  then show ?thesis using nodes_have_K_example e k m by simp
qed

end
